theory Spec2Isabelle
  imports Complex_Main
begin

section \<open>The traffic monitor of \<open>src/monitor.py\<close>\<close>

text \<open>
  The script is run periodically. One run loads the configuration and the persisted
  state, runs \<open>check_and_act\<close> once for every configured user, and saves the state.
  The model is a shallow embedding: the state dictionary is passed explicitly and
  returned updated, every reply of the cloud API and every reading of the wall clock
  is an input (the \<open>world\<close> of one cycle), and everything the cycle does to the
  outside (API requests, sleeps, Telegram posts, the final save) is returned as a
  list of effects in the order the source performs them.

  Numbers: Python's numbers (the clock of \<open>time.time()\<close>, the byte counts, the quota,
  the failure counter, all read from or written to JSON) are modelled as \<open>real\<close>;
  rounding of floating point is not modelled. The configuration is modelled as far as
  the script can fail on it: the parsed value may not be an object, \<open>users\<close> may be
  null, and a user object may lack any of its keys. The state file and the \<open>telegram\<close>
  object are modelled with the types the script expects of them.
\<close>

subsection \<open>Constants (lines 21 to 29)\<close>

definition NOTIFY_COOLDOWN :: real where
  "NOTIFY_COOLDOWN = 3600"

definition OVERLIMIT_COOLDOWN :: real where
  "OVERLIMIT_COOLDOWN = 86400"

definition START_WAIT_TIMEOUT :: nat where
  "START_WAIT_TIMEOUT = 120"

definition START_POLL_INTERVAL :: nat where
  "START_POLL_INTERVAL = 10"

definition MAX_START_FAILURES :: real where
  "MAX_START_FAILURES = 3"

subsection \<open>Data\<close>

text \<open>
  The state is a dictionary from instance id to a dictionary from key to number; the
  inner keys are the event keys (\<open>no_resource\<close>, \<open>resumed\<close>, \<open>start_failed\<close>,
  \<open>overlimit\<close>), holding the time of the last notification, and \<open>start_failures\<close>,
  holding the counter.
\<close>

type_synonym entry = "string \<rightharpoonup> real"
type_synonym state = "string \<rightharpoonup> entry"

record user =
  instance_id :: string
  name :: string
  ak :: string
  sk :: string
  region :: string
  traffic_limit :: "real option"

record tg_conf =
  bot_token :: "string option"
  chat_id :: "string option"






text \<open>
  The exceptions: one raised by a request to the cloud API (or by decoding its reply),
  the \<open>KeyError\<close> of indexing a dictionary with a key it lacks, the \<open>TypeError\<close> of
  iterating over \<open>None\<close> and the \<open>AttributeError\<close> of calling \<open>get\<close> on a value that
  is not a dictionary.
\<close>

datatype error = CloudError string | KeyError string | TypeError | AttributeError

text \<open>
  The reply of \<open>ListCdtInternetTraffic\<close>: the list under \<open>TrafficDetails\<close> when the key
  is present, each element being the \<open>Traffic\<close> field of one detail when it has one.
  The reply of \<open>DescribeInstances\<close>: the \<open>Status\<close> field (when present) of each
  instance under \<open>Instances.Instance\<close>.
\<close>

type_synonym traffic_reply = "real option list option"
type_synonym describe_reply = "string option list"

text \<open>
  What one cycle meets: the reply to the traffic request, the reply to the \<open>k\<close>-th
  status request of the cycle (\<open>k = 0\<close> is the request of line 131, \<open>k \<ge> 1\<close> are the
  polls of line 165), the replies to the start and stop requests, and the value of the
  \<open>k\<close>-th call of \<open>time.time()\<close> in the cycle. On every path the cycle reads the
  clock at most twice: once in \<open>can_notify\<close> (reading 0) and then once in
  \<open>mark_notified\<close> (reading 1).
\<close>

record world =
  traffic_resp :: "error + traffic_reply"
  status_resp :: "nat \<Rightarrow> error + describe_reply"
  start_resp :: "error + unit"
  stop_resp :: "error + unit"
  clock :: "nat \<Rightarrow> real"

text \<open>
  The five alerts of the source, named after the branch that sends them (their titles
  and bodies are not ASCII); each carries the numbers its body is formatted from:
  the machine name, the traffic in GB and, where printed, the failure count.
\<close>

datatype alert =
    NoResourceAlert string real real
  | ResumedAlert string real
  | StartFailedAlert string real real
  | OverlimitStoppedAlert string real
  | OverlimitRemainsAlert string real

datatype colour = Green | Red

datatype effect =
    ListCdtInternetTraffic
  | DescribeInstances string
  | StartInstance string
  | StopInstance string
  | Sleep nat
  | TgPost alert colour
  | SaveState state

text \<open>How the body of the \<open>try\<close> of \<open>check_and_act\<close> ended: normally, by the early
  return of line 134 (instance not found), or in the \<open>except\<close> clause of line 221.\<close>

datatype outcome = Done | NotFound | Raised error

subsection \<open>The state cache (lines 50 to 83)\<close>



definition stored :: "state \<Rightarrow> string \<Rightarrow> string \<Rightarrow> real option" where
  \<comment> \<open>the value under \<open>state[instance_id][key]\<close>, if both keys are present\<close>
  "stored state iid key = (case state iid of None \<Rightarrow> None | Some e \<Rightarrow> e key)"

definition get_or_zero :: "state \<Rightarrow> string \<Rightarrow> string \<Rightarrow> real" where
  \<comment> \<open>\<open>state.get(instance_id, {}).get(key, 0)\<close>\<close>
  "get_or_zero state iid key = (case stored state iid key of None \<Rightarrow> 0 | Some v \<Rightarrow> v)"

definition setdefault :: "state \<Rightarrow> string \<Rightarrow> entry" where
  \<comment> \<open>the dictionary that \<open>state.setdefault(instance_id, {})\<close> returns\<close>
  "setdefault state iid = (case state iid of None \<Rightarrow> Map.empty | Some e \<Rightarrow> e)"

definition can_notify :: "state \<Rightarrow> string \<Rightarrow> string \<Rightarrow> real option \<Rightarrow> real \<Rightarrow> bool" where
  \<comment> \<open>the last argument is the value \<open>time.time()\<close> returns\<close>
  "can_notify state iid event_key cooldown now =
     (let cooldown' = (case cooldown of None \<Rightarrow> NOTIFY_COOLDOWN | Some c \<Rightarrow> c);
          last_ts = get_or_zero state iid event_key
      in now - last_ts \<ge> cooldown')"

definition mark_notified :: "state \<Rightarrow> string \<Rightarrow> string \<Rightarrow> real \<Rightarrow> state" where
  "mark_notified state iid event_key now =
     state(iid \<mapsto> (setdefault state iid)(event_key \<mapsto> now))"

definition get_start_failures :: "state \<Rightarrow> string \<Rightarrow> real" where
  "get_start_failures state iid = get_or_zero state iid ''start_failures''"

definition set_start_failures :: "state \<Rightarrow> string \<Rightarrow> real \<Rightarrow> state" where
  "set_start_failures state iid count =
     state(iid \<mapsto> (setdefault state iid)(''start_failures'' \<mapsto> count))"

definition reset_start_failures :: "state \<Rightarrow> string \<Rightarrow> state" where
  "reset_start_failures state iid =
     state(iid \<mapsto> (setdefault state iid)(''start_failures'' \<mapsto> 0))"

definition pop_key :: "state \<Rightarrow> string \<Rightarrow> string \<Rightarrow> state" where
  \<comment> \<open>\<open>state.setdefault(instance_id, {}).pop(key, None)\<close>\<close>
  "pop_key state iid key = state(iid \<mapsto> (setdefault state iid)(key := None))"

subsection \<open>Telegram and the status query (lines 87 to 109)\<close>

definition truthy :: "string option \<Rightarrow> bool" where
  \<comment> \<open>Python's truth value of \<open>tg_conf.get(key)\<close>: a missing key and the empty string
      are both false\<close>
  "truthy v = (case v of None \<Rightarrow> False | Some s \<Rightarrow> s \<noteq> [])"

definition send_tg_alert :: "tg_conf \<Rightarrow> alert \<Rightarrow> colour \<Rightarrow> effect list" where
  \<comment> \<open>a failure of the post itself is caught and logged inside the function\<close>
  "send_tg_alert tg a c =
     (if \<not> truthy (bot_token tg) \<or> \<not> truthy (chat_id tg) then [] else [TgPost a c])"

definition get_instance_status :: "world \<Rightarrow> nat \<Rightarrow> error + string option" where
  \<comment> \<open>the \<open>k\<close>-th call of the cycle: the request may raise; no instance in the reply
      gives \<open>None\<close>; otherwise the \<open>Status\<close> of the first instance\<close>
  "get_instance_status w k =
     (case status_resp w k of
        Inl e \<Rightarrow> Inl e
      | Inr instances \<Rightarrow> (case instances of [] \<Rightarrow> Inr None | inst # _ \<Rightarrow> Inr inst))"

subsection \<open>The decision (lines 113 to 222)\<close>

definition curr_gb :: "traffic_reply \<Rightarrow> real" where
  "curr_gb data_traffic =
     (let details = (case data_traffic of None \<Rightarrow> [] | Some ds \<Rightarrow> ds);
          total_bytes = sum_list (map (\<lambda>d. case d of None \<Rightarrow> 0 | Some t \<Rightarrow> t) details)
      in total_bytes / 1024 ^ 3)"

definition limit :: "user \<Rightarrow> real" where
  \<comment> \<open>\<open>user.get('traffic_limit', 180)\<close>\<close>
  "limit u = (case traffic_limit u of None \<Rightarrow> 180 | Some l \<Rightarrow> l)"

text \<open>
  The loop of lines 160 to 169. \<open>waited\<close> is the loop variable, \<open>k\<close> the number of
  status requests the cycle has made so far. The result is \<open>Inr started\<close>, or the
  exception a poll raised, together with the sleeps and requests performed.
\<close>

function wait_started :: "world \<Rightarrow> string \<Rightarrow> nat \<Rightarrow> nat \<Rightarrow> (error + bool) \<times> effect list" where
  "wait_started w iid waited k =
     (if waited < START_WAIT_TIMEOUT then
        (case get_instance_status w k of
           Inl e \<Rightarrow> (Inl e, [Sleep START_POLL_INTERVAL, DescribeInstances iid])
         | Inr real_status \<Rightarrow>
             if real_status = Some ''Running''
             then (Inr True, [Sleep START_POLL_INTERVAL, DescribeInstances iid])
             else (let (r, tr) = wait_started w iid (waited + START_POLL_INTERVAL) (Suc k)
                   in (r, Sleep START_POLL_INTERVAL # DescribeInstances iid # tr)))
      else (Inr False, []))"
  by pat_completeness auto
termination
  by (relation "measure (\<lambda>(w, iid, waited, k). START_WAIT_TIMEOUT - waited)")
     (auto simp: START_WAIT_TIMEOUT_def START_POLL_INTERVAL_def)

declare wait_started.simps [simp del]

definition notify_once ::
  "tg_conf \<Rightarrow> state \<Rightarrow> world \<Rightarrow> string \<Rightarrow> string \<Rightarrow> real option \<Rightarrow> alert \<Rightarrow> colour
     \<Rightarrow> state \<times> effect list" where
  \<comment> \<open>the pattern \<open>if can_notify(...): send_tg_alert(...); mark_notified(...)\<close> that
      every branch ends with\<close>
  "notify_once tg state w iid event_key cooldown a c =
     (if can_notify state iid event_key cooldown (clock w 0)
      then (mark_notified state iid event_key (clock w 1), send_tg_alert tg a c)
      else (state, []))"

definition safe_branch ::
  "user \<Rightarrow> tg_conf \<Rightarrow> state \<Rightarrow> world \<Rightarrow> string \<Rightarrow> real \<Rightarrow> outcome \<times> state \<times> effect list" where
  \<comment> \<open>lines 140 to 200, entered when \<open>curr_gb < limit\<close>\<close>
  "safe_branch u tg state w status gb =
     (let iid = instance_id u in
      if status = ''Stopped'' then
        (let failures = get_start_failures state iid in
         if failures \<ge> MAX_START_FAILURES then
           (let (state', tr) = notify_once tg state w iid ''no_resource'' None
                                 (NoResourceAlert (name u) gb failures) Red
            in (Done, state', tr))
         else
           (case start_resp w of
              Inl e \<Rightarrow> (Raised e, state, [StartInstance iid])
            | Inr _ \<Rightarrow>
               (case wait_started w iid 0 1 of
                  (Inl e, polls) \<Rightarrow> (Raised e, state, StartInstance iid # polls)
                | (Inr started, polls) \<Rightarrow>
                    if started then
                      (let state1 = reset_start_failures state iid;
                           state2 = pop_key state1 iid ''no_resource'';
                           (state', tr) = notify_once tg state2 w iid ''resumed'' None
                                            (ResumedAlert (name u) gb) Green
                       in (Done, state', StartInstance iid # polls @ tr))
                    else
                      (let new_failures = failures + 1;
                           state1 = set_start_failures state iid new_failures;
                           (state', tr) = notify_once tg state1 w iid ''start_failed'' None
                                            (StartFailedAlert (name u) gb new_failures) Red
                       in (Done, state', StartInstance iid # polls @ tr)))))
      else if status = ''Running'' then (Done, reset_start_failures state iid, [])
      else (Done, state, []))"

definition overlimit_branch ::
  "user \<Rightarrow> tg_conf \<Rightarrow> state \<Rightarrow> world \<Rightarrow> string \<Rightarrow> real \<Rightarrow> outcome \<times> state \<times> effect list" where
  \<comment> \<open>lines 202 to 219, entered otherwise\<close>
  "overlimit_branch u tg state w status gb =
     (let iid = instance_id u in
      if status = ''Running'' then
        (case stop_resp w of
           Inl e \<Rightarrow> (Raised e, state, [StopInstance iid])
         | Inr _ \<Rightarrow>
            (let (state', tr) = notify_once tg state w iid ''overlimit'' (Some OVERLIMIT_COOLDOWN)
                                  (OverlimitStoppedAlert (name u) gb) Red
             in (Done, state', StopInstance iid # tr)))
      else
        (let (state', tr) = notify_once tg state w iid ''overlimit'' (Some OVERLIMIT_COOLDOWN)
                              (OverlimitRemainsAlert (name u) gb) Red
         in (Done, state', tr)))"

definition check_and_act :: "user \<Rightarrow> tg_conf \<Rightarrow> state \<Rightarrow> world \<Rightarrow> outcome \<times> state \<times> effect list" where
  "check_and_act u tg state w =
     (let iid = instance_id u in
      case traffic_resp w of
        Inl e \<Rightarrow> (Raised e, state, [ListCdtInternetTraffic])
      | Inr data_traffic \<Rightarrow>
         (let gb = curr_gb data_traffic in
          case get_instance_status w 0 of
            Inl e \<Rightarrow> (Raised e, state, [ListCdtInternetTraffic, DescribeInstances iid])
          | Inr None \<Rightarrow> (NotFound, state, [ListCdtInternetTraffic, DescribeInstances iid])
          | Inr (Some status) \<Rightarrow>
             (let (out, state', tr) =
                    (if gb < limit u then safe_branch u tg state w status gb
                     else overlimit_branch u tg state w status gb)
              in (out, state', ListCdtInternetTraffic # DescribeInstances iid # tr))))"

subsection \<open>The run (lines 224 to 229)\<close>






subsection \<open>Successive cycles\<close>

text \<open>
  The script is run again and again, and the state file carries the state from one
  run to the next. \<open>run_cycles\<close> runs a sequence of cycles, each of some user in some
  world, on the state the cycle before it left (what a successful save and load give),
  and returns the final state and, for each cycle, the instance id of its user with the
  effects of the cycle.
\<close>

fun run_cycles ::
  "tg_conf \<Rightarrow> state \<Rightarrow> (user \<times> world) list \<Rightarrow> state \<times> (string \<times> effect list) list" where
  "run_cycles tg state [] = (state, [])"
| "run_cycles tg state ((u, w) # cs) =
     (let (out, state1, tr) = check_and_act u tg state w;
          (state2, rest) = run_cycles tg state1 cs
      in (state2, (instance_id u, tr) # rest))"

definition effects_of :: "string \<Rightarrow> (string \<times> effect list) list \<Rightarrow> effect list" where
  \<comment> \<open>the effects of the cycles of one instance\<close>
  "effects_of iid cycles = concat (map snd (filter (\<lambda>(j, tr). j = iid) cycles))"

fun is_overlimit_post :: "effect \<Rightarrow> bool" where
  "is_overlimit_post (TgPost (OverlimitStoppedAlert n gb) c) = True"
| "is_overlimit_post (TgPost (OverlimitRemainsAlert n gb) c) = True"
| "is_overlimit_post e = False"

fun is_post :: "effect \<Rightarrow> bool" where
  "is_post (TgPost a c) = True"
| "is_post e = False"


definition finds_running :: "user \<Rightarrow> world \<Rightarrow> bool" where
  \<comment> \<open>the cycle reaches line 196: traffic below the quota and the instance Running\<close>
  "finds_running u w =
     (case traffic_resp w of
        Inl e \<Rightarrow> False
      | Inr d \<Rightarrow> curr_gb d < limit u \<and> get_instance_status w 0 = Inr (Some ''Running''))"

subsection \<open>Example inputs\<close>

definition u1 :: user where
  "u1 = \<lparr>instance_id = ''i-1'', name = ''vm1'', ak = ''ak'', sk = ''sk'',
         region = ''cn-hongkong'', traffic_limit = None\<rparr>"

definition u2 :: user where
  "u2 = \<lparr>instance_id = ''i-2'', name = ''vm2'', ak = ''ak'', sk = ''sk'',
         region = ''cn-hongkong'', traffic_limit = Some 50\<rparr>"


definition tg1 :: tg_conf where
  "tg1 = \<lparr>bot_token = Some ''token'', chat_id = Some ''42''\<rparr>"

definition example_world :: "real \<Rightarrow> (nat \<Rightarrow> string) \<Rightarrow> real \<Rightarrow> world" where
  \<comment> \<open>a cloud that answers every request: it reports \<open>gb\<close> GB of traffic in one
      detail and status \<open>status k\<close> to the \<open>k\<close>-th status request; the clock reads
      \<open>now\<close> and then \<open>now + 1\<close>\<close>
  "example_world gb status now =
     \<lparr>traffic_resp = Inr (Some [Some (gb * 1024 ^ 3)]),
      status_resp = (\<lambda>k. Inr [Some (status k)]),
      start_resp = Inr (),
      stop_resp = Inr (),
      clock = (\<lambda>k. now + real k)\<rparr>"


definition st3 :: state where
  \<comment> \<open>three start failures recorded for \<open>i-1\<close>\<close>
  "st3 = [''i-1'' \<mapsto> [''start_failures'' \<mapsto> 3]]"

definition st2 :: state where
  \<comment> \<open>two start failures and two old alerts recorded for \<open>i-1\<close>, an overlimit alert
      for \<open>i-2\<close>\<close>
  "st2 = [''i-1'' \<mapsto> [''start_failures'' \<mapsto> 2, ''no_resource'' \<mapsto> 1761990000,
                      ''start_failed'' \<mapsto> 1761999000],
          ''i-2'' \<mapsto> [''overlimit'' \<mapsto> 1761990000]]"

section \<open>Properties\<close>

subsection \<open>The state cache, read through \<open>stored\<close>\<close>

lemma stored_mark_notified:
  "stored (mark_notified st i k t) j k' = (if j = i \<and> k' = k then Some t else stored st j k')"
  by (simp add: stored_def mark_notified_def setdefault_def split: option.splits)

lemma stored_set_start_failures:
  "stored (set_start_failures st i c) j k' =
     (if j = i \<and> k' = ''start_failures'' then Some c else stored st j k')"
  by (simp add: stored_def set_start_failures_def setdefault_def split: option.splits)

lemma stored_reset_start_failures:
  "stored (reset_start_failures st i) j k' =
     (if j = i \<and> k' = ''start_failures'' then Some 0 else stored st j k')"
  by (simp add: stored_def reset_start_failures_def setdefault_def split: option.splits)

lemma stored_pop_key:
  "stored (pop_key st i k) j k' = (if j = i \<and> k' = k then None else stored st j k')"
  by (simp add: stored_def pop_key_def setdefault_def split: option.splits)

lemma other_mark_notified: "j \<noteq> i \<Longrightarrow> mark_notified st i k t j = st j"
  by (simp add: mark_notified_def)

lemma other_set_start_failures: "j \<noteq> i \<Longrightarrow> set_start_failures st i c j = st j"
  by (simp add: set_start_failures_def)

lemma other_reset_start_failures: "j \<noteq> i \<Longrightarrow> reset_start_failures st i j = st j"
  by (simp add: reset_start_failures_def)

lemma other_pop_key: "j \<noteq> i \<Longrightarrow> pop_key st i k j = st j"
  by (simp add: pop_key_def)

lemma can_notify_stored:
  "can_notify st i k cd now =
     (now - (case stored st i k of None \<Rightarrow> 0 | Some t \<Rightarrow> t)
        \<ge> (case cd of None \<Rightarrow> 3600 | Some c \<Rightarrow> c))"
  by (simp add: can_notify_def get_or_zero_def NOTIFY_COOLDOWN_def split: option.splits)

subsection \<open>The polling loop and the paths of one cycle\<close>

lemma wait_started_shape:
  "wait_started w iid waited k = (r, tr) \<Longrightarrow>
     \<exists>n. tr = concat (replicate n [Sleep 10, DescribeInstances iid]) \<and>
         (n = 0 \<or> waited + 10 * n < 130) \<and>
         (\<forall>j<n - 1. \<exists>s. get_instance_status w (k + j) = Inr s \<and> s \<noteq> Some ''Running'') \<and>
         (case r of
            Inr False \<Rightarrow> 120 \<le> waited + 10 * n \<and>
               (\<forall>j<n. \<exists>s. get_instance_status w (k + j) = Inr s \<and> s \<noteq> Some ''Running'')
          | Inr True \<Rightarrow> 0 < n \<and> get_instance_status w (k + (n - 1)) = Inr (Some ''Running'')
          | Inl e \<Rightarrow> 0 < n \<and> get_instance_status w (k + (n - 1)) = Inl e)"
proof (induction w iid waited k arbitrary: r tr rule: wait_started.induct)
  case (1 w iid waited k)
  show ?case
  proof (cases "waited < 120")
    case False
    with "1.prems" have "r = Inr False" "tr = []"
      by (simp_all add: wait_started.simps START_WAIT_TIMEOUT_def)
    with False show ?thesis by (intro exI[of _ 0]) simp
  next
    case lt: True
    show ?thesis
    proof (cases "get_instance_status w k")
      case (Inl e)
      with lt "1.prems" have "r = Inl e" "tr = [Sleep 10, DescribeInstances iid]"
        by (simp_all add: wait_started.simps START_WAIT_TIMEOUT_def START_POLL_INTERVAL_def)
      with lt Inl show ?thesis by (intro exI[of _ 1]) simp
    next
      case (Inr s)
      show ?thesis
      proof (cases "s = Some ''Running''")
        case True
        with Inr lt "1.prems" have "r = Inr True" "tr = [Sleep 10, DescribeInstances iid]"
          by (simp_all add: wait_started.simps START_WAIT_TIMEOUT_def START_POLL_INTERVAL_def)
        with lt Inr True show ?thesis by (intro exI[of _ 1]) simp
      next
        case False
        obtain r' tr' where rec: "wait_started w iid (waited + 10) (Suc k) = (r', tr')"
          by (cases "wait_started w iid (waited + 10) (Suc k)") auto
        with Inr lt False "1.prems" have res: "r = r'" "tr = Sleep 10 # DescribeInstances iid # tr'"
          by (simp_all add: wait_started.simps[of w iid waited k] START_WAIT_TIMEOUT_def START_POLL_INTERVAL_def)
        have here: "\<exists>s. get_instance_status w (k + 0) = Inr s \<and> s \<noteq> Some ''Running''"
          using Inr False by simp
        note IH = "1.IH"[unfolded START_WAIT_TIMEOUT_def START_POLL_INTERVAL_def, OF lt Inr False rec]
        from IH obtain n where n: "tr' = concat (replicate n [Sleep 10, DescribeInstances iid])"
           "n = 0 \<or> waited + 10 + 10 * n < 130"
           "\<forall>j<n - 1. \<exists>s. get_instance_status w (Suc k + j) = Inr s \<and> s \<noteq> Some ''Running''"
           "(case r' of
            Inr False \<Rightarrow> 120 \<le> waited + 10 + 10 * n \<and>
               (\<forall>j<n. \<exists>s. get_instance_status w (Suc k + j) = Inr s \<and> s \<noteq> Some ''Running'')
          | Inr True \<Rightarrow> 0 < n \<and> get_instance_status w (Suc k + (n - 1)) = Inr (Some ''Running'')
          | Inl e \<Rightarrow> 0 < n \<and> get_instance_status w (Suc k + (n - 1)) = Inl e)"
          by blast
        show ?thesis
        proof (intro exI[of _ "Suc n"] conjI)
          show "tr = concat (replicate (Suc n) [Sleep 10, DescribeInstances iid])"
            using res n(1) by simp
          show "Suc n = 0 \<or> waited + 10 * Suc n < 130"
            using n(2) lt by auto
          show "\<forall>j<Suc n - 1. \<exists>s. get_instance_status w (k + j) = Inr s \<and> s \<noteq> Some ''Running''"
          proof (intro allI impI)
            fix j assume "j < Suc n - 1"
            then show "\<exists>s. get_instance_status w (k + j) = Inr s \<and> s \<noteq> Some ''Running''"
              using n(3) here by (cases j) auto
          qed
          show "case r of
            Inr False \<Rightarrow> 120 \<le> waited + 10 * Suc n \<and>
               (\<forall>j<Suc n. \<exists>s. get_instance_status w (k + j) = Inr s \<and> s \<noteq> Some ''Running'')
          | Inr True \<Rightarrow> 0 < Suc n \<and> get_instance_status w (k + (Suc n - 1)) = Inr (Some ''Running'')
          | Inl e \<Rightarrow> 0 < Suc n \<and> get_instance_status w (k + (Suc n - 1)) = Inl e"
          proof (cases r')
            case (Inl e)
            with n(4) res show ?thesis by (cases n) auto
          next
            case r'b: (Inr b)
            show ?thesis
            proof (cases b)
              case True
              with r'b n(4) res show ?thesis by (cases n) auto
            next
              case bF: False
              have "\<exists>s. get_instance_status w (k + j) = Inr s \<and> s \<noteq> Some ''Running''" if "j < Suc n" for j
                using that n(4) r'b bF here by (cases j) auto
              with r'b bF n(4) res show ?thesis by auto
            qed
          qed
        qed
      qed
    qed
  qed
qed


lemma wait_started_cases:
  obtains e tr where "wait_started w iid waited k = (Inl e, tr)"
        | b tr where "wait_started w iid waited k = (Inr b, tr)"
proof (cases "wait_started w iid waited k")
  case (Pair r tr)
  then show ?thesis using that by (cases r) auto
qed

lemma check_and_act_cases [consumes 1, case_names traffic_error status_error not_found
    gate start_error poll_error started timeout running intermediate stop_error stopped remains]:
  assumes "check_and_act u tg st w = (out, st', tr)"
  obtains
    e where "traffic_resp w = Inl e" "out = Raised e" "st' = st" "tr = [ListCdtInternetTraffic]"
  | d e where "traffic_resp w = Inr d" "get_instance_status w 0 = Inl e"
      "out = Raised e" "st' = st" "tr = [ListCdtInternetTraffic, DescribeInstances (instance_id u)]"
  | d where "traffic_resp w = Inr d" "get_instance_status w 0 = Inr None"
      "out = NotFound" "st' = st" "tr = [ListCdtInternetTraffic, DescribeInstances (instance_id u)]"
  | d tr0 where "traffic_resp w = Inr d" "get_instance_status w 0 = Inr (Some ''Stopped'')"
      "curr_gb d < limit u" "get_start_failures st (instance_id u) \<ge> 3" "out = Done"
      "notify_once tg st w (instance_id u) ''no_resource'' None
         (NoResourceAlert (name u) (curr_gb d) (get_start_failures st (instance_id u))) Red = (st', tr0)"
      "tr = ListCdtInternetTraffic # DescribeInstances (instance_id u) # tr0"
  | d e where "traffic_resp w = Inr d" "get_instance_status w 0 = Inr (Some ''Stopped'')"
      "curr_gb d < limit u" "get_start_failures st (instance_id u) < 3" "start_resp w = Inl e"
      "out = Raised e" "st' = st"
      "tr = [ListCdtInternetTraffic, DescribeInstances (instance_id u), StartInstance (instance_id u)]"
  | d e polls where "traffic_resp w = Inr d" "get_instance_status w 0 = Inr (Some ''Stopped'')"
      "curr_gb d < limit u" "get_start_failures st (instance_id u) < 3" "start_resp w = Inr ()"
      "wait_started w (instance_id u) 0 1 = (Inl e, polls)"
      "out = Raised e" "st' = st"
      "tr = ListCdtInternetTraffic # DescribeInstances (instance_id u) # StartInstance (instance_id u) # polls"
  | d polls tr0 where "traffic_resp w = Inr d" "get_instance_status w 0 = Inr (Some ''Stopped'')"
      "curr_gb d < limit u" "get_start_failures st (instance_id u) < 3" "start_resp w = Inr ()"
      "wait_started w (instance_id u) 0 1 = (Inr True, polls)" "out = Done"
      "notify_once tg (pop_key (reset_start_failures st (instance_id u)) (instance_id u) ''no_resource'')
         w (instance_id u) ''resumed'' None (ResumedAlert (name u) (curr_gb d)) Green = (st', tr0)"
      "tr = ListCdtInternetTraffic # DescribeInstances (instance_id u) # StartInstance (instance_id u) # polls @ tr0"
  | d polls tr0 where "traffic_resp w = Inr d" "get_instance_status w 0 = Inr (Some ''Stopped'')"
      "curr_gb d < limit u" "get_start_failures st (instance_id u) < 3" "start_resp w = Inr ()"
      "wait_started w (instance_id u) 0 1 = (Inr False, polls)" "out = Done"
      "notify_once tg (set_start_failures st (instance_id u) (get_start_failures st (instance_id u) + 1))
         w (instance_id u) ''start_failed'' None
         (StartFailedAlert (name u) (curr_gb d) (get_start_failures st (instance_id u) + 1)) Red = (st', tr0)"
      "tr = ListCdtInternetTraffic # DescribeInstances (instance_id u) # StartInstance (instance_id u) # polls @ tr0"
  | d where "traffic_resp w = Inr d" "get_instance_status w 0 = Inr (Some ''Running'')"
      "curr_gb d < limit u" "out = Done" "st' = reset_start_failures st (instance_id u)"
      "tr = [ListCdtInternetTraffic, DescribeInstances (instance_id u)]"
  | d status where "traffic_resp w = Inr d" "get_instance_status w 0 = Inr (Some status)"
      "status \<noteq> ''Stopped''" "status \<noteq> ''Running''"
      "curr_gb d < limit u" "out = Done" "st' = st"
      "tr = [ListCdtInternetTraffic, DescribeInstances (instance_id u)]"
  | d e where "traffic_resp w = Inr d" "get_instance_status w 0 = Inr (Some ''Running'')"
      "curr_gb d \<ge> limit u" "stop_resp w = Inl e" "out = Raised e" "st' = st"
      "tr = [ListCdtInternetTraffic, DescribeInstances (instance_id u), StopInstance (instance_id u)]"
  | d tr0 where "traffic_resp w = Inr d" "get_instance_status w 0 = Inr (Some ''Running'')"
      "curr_gb d \<ge> limit u" "stop_resp w = Inr ()" "out = Done"
      "notify_once tg st w (instance_id u) ''overlimit'' (Some OVERLIMIT_COOLDOWN)
         (OverlimitStoppedAlert (name u) (curr_gb d)) Red = (st', tr0)"
      "tr = ListCdtInternetTraffic # DescribeInstances (instance_id u) # StopInstance (instance_id u) # tr0"
  | d status tr0 where "traffic_resp w = Inr d" "get_instance_status w 0 = Inr (Some status)"
      "status \<noteq> ''Running''" "curr_gb d \<ge> limit u" "out = Done"
      "notify_once tg st w (instance_id u) ''overlimit'' (Some OVERLIMIT_COOLDOWN)
         (OverlimitRemainsAlert (name u) (curr_gb d)) Red = (st', tr0)"
      "tr = ListCdtInternetTraffic # DescribeInstances (instance_id u) # tr0"
proof (cases "traffic_resp w")
  case (Inl e)
  with assms that(1) show ?thesis by (simp add: check_and_act_def Let_def)
next
  case d: (Inr d)
  show ?thesis
  proof (cases "get_instance_status w 0")
    case (Inl e)
    with assms d that(2) show ?thesis by (simp add: check_and_act_def Let_def)
  next
    case s: (Inr so)
    show ?thesis
    proof (cases so)
      case None
      with assms d s that(3) show ?thesis by (simp add: check_and_act_def Let_def)
    next
      case (Some status)
      show ?thesis
      proof (cases "curr_gb d < limit u")
        case safe: True
        with assms d s Some
        have sb: "safe_branch u tg st w status (curr_gb d) = (out, st', drop 2 tr)"
          and tr: "tr = ListCdtInternetTraffic # DescribeInstances (instance_id u) # drop 2 tr"
          by (auto simp: check_and_act_def Let_def split: prod.splits)
        show ?thesis
        proof (cases "status = ''Stopped''")
          case stopped: True
          show ?thesis
          proof (cases "get_start_failures st (instance_id u) \<ge> 3")
            case True
            with sb stopped have "out = Done"
              "notify_once tg st w (instance_id u) ''no_resource'' None
                (NoResourceAlert (name u) (curr_gb d) (get_start_failures st (instance_id u))) Red = (st', drop 2 tr)"
              by (auto simp: safe_branch_def MAX_START_FAILURES_def Let_def split: prod.splits)
            with that(4) d s Some stopped safe True tr show ?thesis by blast
          next
            case below: False
            show ?thesis
            proof (cases "start_resp w")
              case (Inl e)
              with sb stopped below have "out = Raised e" "st' = st" "drop 2 tr = [StartInstance (instance_id u)]"
                by (auto simp: safe_branch_def MAX_START_FAILURES_def Let_def)
              with that(5)[of d e] d s Some stopped safe below tr Inl show ?thesis by simp
            next
              case (Inr x)
              then have start: "start_resp w = Inr ()" by simp
              show ?thesis
              proof (cases rule: wait_started_cases[of w "instance_id u" 0 1])
                case (1 e polls)
                with sb stopped below start have "out = Raised e" "st' = st"
                  "drop 2 tr = StartInstance (instance_id u) # polls"
                  by (auto simp: safe_branch_def MAX_START_FAILURES_def Let_def)
                with that(6)[of d e polls] d s Some stopped safe below tr start 1 show ?thesis by simp
              next
                case (2 b polls)
                show ?thesis
                proof (cases b)
                  case True
                  with 2 sb stopped below start obtain tr0 where "out = Done"
                    "notify_once tg (pop_key (reset_start_failures st (instance_id u)) (instance_id u) ''no_resource'')
                       w (instance_id u) ''resumed'' None (ResumedAlert (name u) (curr_gb d)) Green = (st', tr0)"
                    "drop 2 tr = StartInstance (instance_id u) # polls @ tr0"
                    by (auto simp: safe_branch_def MAX_START_FAILURES_def Let_def split: prod.splits)
                  with that(7)[of d polls tr0] d s Some stopped safe below tr start 2 True show ?thesis by simp
                next
                  case False
                  with 2 sb stopped below start obtain tr0 where "out = Done"
                    "notify_once tg (set_start_failures st (instance_id u) (get_start_failures st (instance_id u) + 1))
                       w (instance_id u) ''start_failed'' None
                       (StartFailedAlert (name u) (curr_gb d) (get_start_failures st (instance_id u) + 1)) Red = (st', tr0)"
                    "drop 2 tr = StartInstance (instance_id u) # polls @ tr0"
                    by (auto simp: safe_branch_def MAX_START_FAILURES_def Let_def split: prod.splits)
                  with that(8)[of d polls tr0] d s Some stopped safe below tr start 2 False show ?thesis by simp
                qed
              qed
            qed
          qed
        next
          case ns: False
          show ?thesis
          proof (cases "status = ''Running''")
            case True
            with sb have "out = Done" "st' = reset_start_failures st (instance_id u)" "drop 2 tr = []"
              by (auto simp: safe_branch_def Let_def)
            with that(9)[of d] d s Some True safe tr show ?thesis by simp
          next
            case False
            with sb ns have "out = Done" "st' = st" "drop 2 tr = []"
              by (auto simp: safe_branch_def Let_def)
            with that(10)[of d status] d s Some ns False safe tr show ?thesis by simp
          qed
        qed
      next
        case over: False
        with assms d s Some
        have ob: "overlimit_branch u tg st w status (curr_gb d) = (out, st', drop 2 tr)"
          and tr: "tr = ListCdtInternetTraffic # DescribeInstances (instance_id u) # drop 2 tr"
          by (auto simp: check_and_act_def Let_def split: prod.splits)
        show ?thesis
        proof (cases "status = ''Running''")
          case run: True
          show ?thesis
          proof (cases "stop_resp w")
            case (Inl e)
            with ob run have "out = Raised e" "st' = st" "drop 2 tr = [StopInstance (instance_id u)]"
              by (auto simp: overlimit_branch_def Let_def)
            with that(11)[of d e] d s Some run over tr Inl show ?thesis by simp
          next
            case (Inr x)
            then have stop: "stop_resp w = Inr ()" by simp
            with ob run obtain tr0 where "out = Done"
              "notify_once tg st w (instance_id u) ''overlimit'' (Some OVERLIMIT_COOLDOWN)
                 (OverlimitStoppedAlert (name u) (curr_gb d)) Red = (st', tr0)"
              "drop 2 tr = StopInstance (instance_id u) # tr0"
              by (auto simp: overlimit_branch_def Let_def split: prod.splits)
            with that(12)[of d tr0] d s Some run over tr stop show ?thesis by simp
          qed
        next
          case False
          with ob have "out = Done"
              "notify_once tg st w (instance_id u) ''overlimit'' (Some OVERLIMIT_COOLDOWN)
                 (OverlimitRemainsAlert (name u) (curr_gb d)) Red = (st', drop 2 tr)"
            by (auto simp: overlimit_branch_def Let_def split: prod.splits)
          with that(13)[of d status "drop 2 tr"] d s Some False over tr show ?thesis by simp
        qed
      qed
    qed
  qed
qed

lemma get_start_failures_stored:
  "get_start_failures st i = (case stored st i ''start_failures'' of None \<Rightarrow> 0 | Some v \<Rightarrow> v)"
  by (simp add: get_start_failures_def get_or_zero_def)

lemma notify_once_stored:
  "notify_once tg st w i k cd a c = (st', tr) \<Longrightarrow>
     stored st' j k' =
       (if can_notify st i k cd (clock w 0) \<and> j = i \<and> k' = k then Some (clock w 1)
        else stored st j k')"
  by (auto simp: notify_once_def stored_mark_notified split: if_splits)

lemma notify_once_other:
  "notify_once tg st w i k cd a c = (st', tr) \<Longrightarrow> j \<noteq> i \<Longrightarrow> st' j = st j"
  by (auto simp: notify_once_def other_mark_notified split: if_splits)

lemma notify_once_trace:
  "notify_once tg st w i k cd a c = (st', tr) \<Longrightarrow>
     tr = [] \<or> (tr = [TgPost a c] \<and> can_notify st i k cd (clock w 0))"
  by (auto simp: notify_once_def send_tg_alert_def split: if_splits)

lemma wait_started_trace:
  assumes "wait_started w iid waited k = (r, tr)"
  shows "set tr \<subseteq> {Sleep 10, DescribeInstances iid}"
proof -
  from wait_started_shape [OF assms]
  obtain n where "tr = concat (replicate n [Sleep 10, DescribeInstances iid])" by blast
  then show ?thesis by (induction n arbitrary: tr) auto
qed

lemma wait_started_no_post:
  assumes "wait_started w iid waited k = (r, tr)"
  shows "filter is_post tr = []" and "filter is_overlimit_post tr = []"
    and "StopInstance j \<notin> set tr" and "StartInstance j \<notin> set tr"
  using wait_started_trace [OF assms] by (auto simp: filter_empty_conv)

lemma check_and_act_eq:
  assumes "traffic_resp w = Inr d" and "get_instance_status w 0 = Inr (Some status)"
  shows "check_and_act u tg st w =
     (case (if curr_gb d < limit u then safe_branch u tg st w status (curr_gb d)
            else overlimit_branch u tg st w status (curr_gb d)) of
        (out, st', tr) \<Rightarrow>
          (out, st', ListCdtInternetTraffic # DescribeInstances (instance_id u) # tr))"
  using assms by (simp add: check_and_act_def Let_def)

lemma branch_traffic_limit:
  "safe_branch (u\<lparr>traffic_limit := x\<rparr>) tg st w status gb = safe_branch u tg st w status gb"
  "overlimit_branch (u\<lparr>traffic_limit := x\<rparr>) tg st w status gb = overlimit_branch u tg st w status gb"
  by (auto simp: safe_branch_def overlimit_branch_def Let_def split: sum.splits prod.splits)

lemma can_notify_cong:
  "stored sa i k = stored sb i k \<Longrightarrow> can_notify sa i k cd now = can_notify sb i k cd now"
  by (simp add: can_notify_stored)

lemma cycle_other_target:
  assumes "check_and_act u tg st w = (out, st', tr)" and "j \<noteq> instance_id u"
  shows "st' j = st j" and "StartInstance j \<notin> set tr"
proof -
  have "st' j = st j \<and> StartInstance j \<notin> set tr"
    using assms(1)
  proof (cases rule: check_and_act_cases)
    case (gate d tr0)
    with notify_once_trace [OF gate(6)] notify_once_other [OF gate(6) assms(2)] assms(2)
    show ?thesis by auto
  next
    case (poll_error d e polls)
    with wait_started_no_post(4) [OF poll_error(6)] assms(2) show ?thesis by auto
  next
    case (started d polls tr0)
    with wait_started_no_post(4) [OF started(6)] notify_once_trace [OF started(8)]
      notify_once_other [OF started(8) assms(2)] assms(2)
    show ?thesis by (auto simp: other_pop_key other_reset_start_failures)
  next
    case (timeout d polls tr0)
    with wait_started_no_post(4) [OF timeout(6)] notify_once_trace [OF timeout(8)]
      notify_once_other [OF timeout(8) assms(2)] assms(2)
    show ?thesis by (auto simp: other_set_start_failures)
  next
    case (running d)
    with assms(2) show ?thesis by (simp add: other_reset_start_failures)
  next
    case (stopped d tr0)
    with notify_once_trace [OF stopped(6)] notify_once_other [OF stopped(6) assms(2)]
    show ?thesis by auto
  next
    case (remains d status tr0)
    with notify_once_trace [OF remains(6)] notify_once_other [OF remains(6) assms(2)]
    show ?thesis by auto
  qed (use assms(2) in auto)
  then show "st' j = st j" and "StartInstance j \<notin> set tr" by simp_all
qed

lemma stored_other_target:
  assumes "check_and_act u tg st w = (out, st', tr)" and "j \<noteq> instance_id u"
  shows "stored st' j k = stored st j k"
  using cycle_other_target(1) [OF assms] by (simp add: stored_def)

lemma gate_cycle:
  assumes "check_and_act u tg st w = (out, st', tr)"
    and "3 \<le> get_start_failures st i"
    and "instance_id u = i \<longrightarrow> \<not> finds_running u w"
  shows "StartInstance i \<notin> set tr \<and> get_start_failures st' i = get_start_failures st i"
proof (cases "instance_id u = i")
  case False
  then have "i \<noteq> instance_id u" by auto
  from cycle_other_target(2) [OF assms(1) this] stored_other_target [OF assms(1) this]
  show ?thesis by (simp add: get_start_failures_stored)
next
  case True
  with assms(3) have nf: "\<not> finds_running u w" by simp
  show ?thesis
    using assms(1)
  proof (cases rule: check_and_act_cases)
    case (gate d tr0)
    with notify_once_trace [OF gate(6)]
      notify_once_stored [OF gate(6), of i "''start_failures''"] True
    show ?thesis by (auto simp: get_start_failures_stored)
  next
    case (running d)
    with nf show ?thesis by (simp add: finds_running_def)
  next
    case (stopped d tr0)
    with notify_once_trace [OF stopped(6)]
      notify_once_stored [OF stopped(6), of i "''start_failures''"] True
    show ?thesis by (auto simp: get_start_failures_stored)
  next
    case (remains d status tr0)
    with notify_once_trace [OF remains(6)]
      notify_once_stored [OF remains(6), of i "''start_failures''"] True
    show ?thesis by (auto simp: get_start_failures_stored)
  qed (use True assms(2) in auto)
qed

lemma gate_cycles:
  assumes "3 \<le> get_start_failures st i"
    and "\<forall>(u, w) \<in> set cs. instance_id u = i \<longrightarrow> \<not> finds_running u w"
  shows "StartInstance i \<notin> set (concat (map snd (snd (run_cycles tg st cs)))) \<and>
         get_start_failures (fst (run_cycles tg st cs)) i = get_start_failures st i"
  using assms
proof (induction cs arbitrary: st)
  case Nil
  then show ?case by simp
next
  case (Cons c cs)
  obtain u w where c: "c = (u, w)" by (cases c)
  obtain out st1 tr where step: "check_and_act u tg st w = (out, st1, tr)"
    by (cases "check_and_act u tg st w") auto
  obtain st2 rest where run: "run_cycles tg st1 cs = (st2, rest)"
    by (cases "run_cycles tg st1 cs") auto
  from Cons.prems(2) c have here: "instance_id u = i \<longrightarrow> \<not> finds_running u w"
    and later: "\<forall>(u, w) \<in> set cs. instance_id u = i \<longrightarrow> \<not> finds_running u w"
    by auto
  from gate_cycle [OF step Cons.prems(1) here]
  have now: "StartInstance i \<notin> set tr" "get_start_failures st1 i = get_start_failures st i"
    by simp_all
  with Cons.prems(1) have "3 \<le> get_start_failures st1 i" by simp
  from Cons.IH [OF this later] run
  have "StartInstance i \<notin> set (concat (map snd rest))"
    "get_start_failures st2 i = get_start_failures st1 i"
    by simp_all
  with now c step run show ?case by simp
qed

lemma effects_of_Cons:
  "effects_of i ((j, tr) # rest) = (if j = i then tr else []) @ effects_of i rest"
  by (simp add: effects_of_def)

lemma overlimit_cycle:
  assumes "check_and_act u tg st w = (out, st', tr)" and "instance_id u = i"
  shows "(filter is_overlimit_post tr = [] \<and>
          stored st' i ''overlimit'' = stored st i ''overlimit'') \<or>
         (length (filter is_overlimit_post tr) \<le> 1 \<and>
          can_notify st i ''overlimit'' (Some OVERLIMIT_COOLDOWN) (clock w 0) \<and>
          stored st' i ''overlimit'' = Some (clock w 1))"
  using assms(1)
proof (cases rule: check_and_act_cases)
  case (gate d tr0)
  with notify_once_trace [OF gate(6)] notify_once_stored [OF gate(6), of i "''overlimit''"]
  show ?thesis by auto
next
  case (poll_error d e polls)
  with wait_started_no_post(2) [OF poll_error(6)] show ?thesis by simp
next
  case (started d polls tr0)
  with wait_started_no_post(2) [OF started(6)] notify_once_trace [OF started(8)]
    notify_once_stored [OF started(8), of i "''overlimit''"] assms(2)
  show ?thesis by (auto simp: stored_pop_key stored_reset_start_failures)
next
  case (timeout d polls tr0)
  with wait_started_no_post(2) [OF timeout(6)] notify_once_trace [OF timeout(8)]
    notify_once_stored [OF timeout(8), of i "''overlimit''"] assms(2)
  show ?thesis by (auto simp: stored_set_start_failures)
next
  case (running d)
  then show ?thesis by (simp add: stored_reset_start_failures)
next
  case (stopped d tr0)
  with notify_once_trace [OF stopped(6)] notify_once_stored [OF stopped(6), of i "''overlimit''"]
    assms(2)
  show ?thesis by auto
next
  case (remains d status tr0)
  with notify_once_trace [OF remains(6)] notify_once_stored [OF remains(6), of i "''overlimit''"]
    assms(2)
  show ?thesis by auto
qed auto

lemma overlimit_blocked:
  assumes "stored st i ''overlimit'' = Some ts" and "T \<le> ts"
    and "\<forall>(u, w) \<in> set cs. instance_id u = i \<longrightarrow> T \<le> clock w 1 \<and> clock w 0 < T + OVERLIMIT_COOLDOWN"
  shows "filter is_overlimit_post (effects_of i (snd (run_cycles tg st cs))) = []"
  using assms
proof (induction cs arbitrary: st ts)
  case Nil
  then show ?case by (simp add: effects_of_def)
next
  case (Cons c cs)
  obtain u w where c: "c = (u, w)" by (cases c)
  obtain out st1 tr where step: "check_and_act u tg st w = (out, st1, tr)"
    by (cases "check_and_act u tg st w") auto
  obtain st2 rest where run: "run_cycles tg st1 cs = (st2, rest)"
    by (cases "run_cycles tg st1 cs") auto
  from Cons.prems(3) c
  have later: "\<forall>(u, w) \<in> set cs. instance_id u = i \<longrightarrow> T \<le> clock w 1 \<and> clock w 0 < T + OVERLIMIT_COOLDOWN"
    and here: "instance_id u = i \<longrightarrow> clock w 0 < T + OVERLIMIT_COOLDOWN"
    by auto
  have keep: "stored st1 i ''overlimit'' = Some ts \<and>
      filter is_overlimit_post (if instance_id u = i then tr else []) = []"
  proof (cases "instance_id u = i")
    case False
    then have "i \<noteq> instance_id u" by auto
    from stored_other_target [OF step this] Cons.prems(1) False show ?thesis by simp
  next
    case True
    with here Cons.prems(1,2)
    have "\<not> can_notify st i ''overlimit'' (Some OVERLIMIT_COOLDOWN) (clock w 0)"
      by (simp add: can_notify_stored)
    with overlimit_cycle [OF step True] Cons.prems(1) True show ?thesis by auto
  qed
  then have "stored st1 i ''overlimit'' = Some ts" by simp
  from Cons.IH [OF this Cons.prems(2) later] run
  have "filter is_overlimit_post (effects_of i rest) = []" by simp
  with keep c step run show ?case by (simp add: effects_of_Cons)
qed

lemma overlimit_once:
  assumes "\<forall>(u, w) \<in> set cs. instance_id u = i \<longrightarrow> T \<le> clock w 1 \<and> clock w 0 < T + OVERLIMIT_COOLDOWN"
  shows "length (filter is_overlimit_post (effects_of i (snd (run_cycles tg st cs)))) \<le> 1"
  using assms
proof (induction cs arbitrary: st)
  case Nil
  then show ?case by (simp add: effects_of_def)
next
  case (Cons c cs)
  obtain u w where c: "c = (u, w)" by (cases c)
  obtain out st1 tr where step: "check_and_act u tg st w = (out, st1, tr)"
    by (cases "check_and_act u tg st w") auto
  obtain st2 rest where run: "run_cycles tg st1 cs = (st2, rest)"
    by (cases "run_cycles tg st1 cs") auto
  from Cons.prems c
  have later: "\<forall>(u, w) \<in> set cs. instance_id u = i \<longrightarrow> T \<le> clock w 1 \<and> clock w 0 < T + OVERLIMIT_COOLDOWN"
    and here: "instance_id u = i \<longrightarrow> T \<le> clock w 1"
    by auto
  from Cons.IH [OF later, of st1] run
  have ih: "length (filter is_overlimit_post (effects_of i rest)) \<le> 1" by simp
  have unfold: "effects_of i (snd (run_cycles tg st (c # cs)))
      = (if instance_id u = i then tr else []) @ effects_of i rest"
    using c step run by (simp add: effects_of_Cons)
  show ?case
  proof (cases "instance_id u = i")
    case False
    with ih unfold show ?thesis by simp
  next
    case True
    from overlimit_cycle [OF step True]
    show ?thesis
    proof
      assume "filter is_overlimit_post tr = [] \<and>
          stored st1 i ''overlimit'' = stored st i ''overlimit''"
      with ih unfold True show ?thesis by simp
    next
      assume marked: "length (filter is_overlimit_post tr) \<le> 1 \<and>
          can_notify st i ''overlimit'' (Some OVERLIMIT_COOLDOWN) (clock w 0) \<and>
          stored st1 i ''overlimit'' = Some (clock w 1)"
      with here True have "stored st1 i ''overlimit'' = Some (clock w 1)" "T \<le> clock w 1"
        by simp_all
      from overlimit_blocked [OF this later, of tg] run
      have "filter is_overlimit_post (effects_of i rest) = []" by simp
      with marked unfold True show ?thesis by simp
    qed
  qed
qed






subsection \<open>The run over the user objects\<close>














text \<open>The definitions a concrete cycle is evaluated with.\<close>

lemmas eval_defs =
  check_and_act_def safe_branch_def overlimit_branch_def notify_once_def send_tg_alert_def
  truthy_def get_instance_status_def curr_gb_def limit_def can_notify_def mark_notified_def
  get_start_failures_def set_start_failures_def reset_start_failures_def pop_key_def
  setdefault_def get_or_zero_def stored_def example_world_def u1_def u2_def tg1_def st2_def
  st3_def
  NOTIFY_COOLDOWN_def OVERLIMIT_COOLDOWN_def START_WAIT_TIMEOUT_def START_POLL_INTERVAL_def
  MAX_START_FAILURES_def Let_def

subsection \<open>The cooldown of notifications\<close>

text \<open>
  Claim C4, as the specification states it: for every target, event key and window,
  \<open>can_notify\<close> is true when no timestamp is stored for the key. The source reads an
  absent timestamp as 0 (line 70), so the answer is \<open>now - 0 \<ge> window\<close>: with no
  timestamp stored, a window of 2000000000 seconds and the clock at 1762000000,
  \<open>can_notify\<close> is false.
\<close>

theorem can_notify_absent_counterexample:
  "stored Map.empty ''i-1'' ''overlimit'' = None \<and>
   \<not> can_notify Map.empty ''i-1'' ''overlimit'' (Some 2000000000) 1762000000"
  by (simp add: can_notify_stored stored_def)

text \<open>
  Claim C4, amended: with no timestamp stored for the target and the event key,
  \<open>can_notify\<close> is true exactly when the clock reading is at least the window (an
  absent timestamp counts as 0); evaluated at the clock reading that \<open>mark_notified\<close>
  has just recorded it is false, for any positive window; and it is true again at
  every clock reading that is at least the window past the recorded one. Each part is
  stated for an explicit window and for the default window \<open>NOTIFY_COOLDOWN\<close>.
\<close>

theorem can_notify_cooldown:
  "(stored st i k = None \<longrightarrow> can_notify st i k (Some window) now = (window \<le> now)) \<and>
   (stored st i k = None \<longrightarrow> can_notify st i k None now = (NOTIFY_COOLDOWN \<le> now)) \<and>
   (0 < window \<longrightarrow> \<not> can_notify (mark_notified st i k now) i k (Some window) now) \<and>
   \<not> can_notify (mark_notified st i k now) i k None now \<and>
   (now + window \<le> now' \<longrightarrow> can_notify (mark_notified st i k now) i k (Some window) now') \<and>
   (now + NOTIFY_COOLDOWN \<le> now' \<longrightarrow> can_notify (mark_notified st i k now) i k None now')"
  by (simp add: can_notify_stored stored_mark_notified NOTIFY_COOLDOWN_def)

theorem can_notify_cooldown_witness:
  "stored Map.empty ''i-1'' ''resumed'' = None \<and>
   can_notify Map.empty ''i-1'' ''resumed'' (Some 3600) 1762000000 \<and>
   can_notify Map.empty ''i-1'' ''resumed'' None 1762000000 \<and>
   (0::real) < 3600 \<and>
   \<not> can_notify (mark_notified Map.empty ''i-1'' ''resumed'' 1762000000) ''i-1'' ''resumed''
       (Some 3600) 1762000000 \<and>
   can_notify (mark_notified Map.empty ''i-1'' ''resumed'' 1762000000) ''i-1'' ''resumed''
       (Some 3600) 1762003600 \<and>
   can_notify (mark_notified Map.empty ''i-1'' ''resumed'' 1762000000) ''i-1'' ''resumed''
       None 1762003600"
  using can_notify_cooldown [of Map.empty "''i-1''" "''resumed''" 3600 1762000000 1762003600]
  by (simp add: stored_def NOTIFY_COOLDOWN_def)

subsection \<open>The start-confirmation loop\<close>

text \<open>
  Claim C5: the loop of lines 160 to 169, entered with \<open>waited = 0\<close> after the one
  status request the cycle has made, performs \<open>n \<le> 12\<close> polls, each right after a sleep
  of \<open>START_POLL_INTERVAL\<close> = 10 seconds and nothing else. Every poll before the last
  returned a status other than Running, so no poll follows one that observed Running;
  the loop reports \<open>started\<close> exactly when its last poll observed Running, and it
  reports the timeout only after 12 polls, none of which observed Running. (A poll that
  raises ends the loop with that exception.)
\<close>

theorem wait_started_polls:
  "\<exists>n\<le>12.
     snd (wait_started w iid 0 1)
       = concat (replicate n [Sleep START_POLL_INTERVAL, DescribeInstances iid]) \<and>
     (\<forall>j. 1 \<le> j \<and> j < n \<longrightarrow> (\<exists>s. get_instance_status w j = Inr s \<and> s \<noteq> Some ''Running'')) \<and>
     (case fst (wait_started w iid 0 1) of
        Inr True \<Rightarrow> 1 \<le> n \<and> get_instance_status w n = Inr (Some ''Running'')
      | Inr False \<Rightarrow> n = 12 \<and> (\<exists>s. get_instance_status w 12 = Inr s \<and> s \<noteq> Some ''Running'')
      | Inl e \<Rightarrow> 1 \<le> n \<and> get_instance_status w n = Inl e)"
proof -
  obtain r tr where res: "wait_started w iid 0 1 = (r, tr)"
    by (cases "wait_started w iid 0 1") auto
  from wait_started_shape [OF res]
  obtain n where tr: "tr = concat (replicate n [Sleep 10, DescribeInstances iid])"
    and bound: "n = 0 \<or> 0 + 10 * n < 130"
    and before: "\<forall>j<n - 1. \<exists>s. get_instance_status w (1 + j) = Inr s \<and> s \<noteq> Some ''Running''"
    and last: "case r of
            Inr False \<Rightarrow> 120 \<le> 0 + 10 * n \<and>
               (\<forall>j<n. \<exists>s. get_instance_status w (1 + j) = Inr s \<and> s \<noteq> Some ''Running'')
          | Inr True \<Rightarrow> 0 < n \<and> get_instance_status w (1 + (n - 1)) = Inr (Some ''Running'')
          | Inl e \<Rightarrow> 0 < n \<and> get_instance_status w (1 + (n - 1)) = Inl e"
    by blast
  have le: "n \<le> 12" using bound by auto
  have earlier: "\<exists>s. get_instance_status w j = Inr s \<and> s \<noteq> Some ''Running''"
    if "1 \<le> j" "j < n" for j
  proof -
    from that have "j - 1 < n - 1" by simp
    with before have "\<exists>s. get_instance_status w (1 + (j - 1)) = Inr s \<and> s \<noteq> Some ''Running''"
      by blast
    with that show ?thesis by simp
  qed
  have final: "case r of
        Inr True \<Rightarrow> 1 \<le> n \<and> get_instance_status w n = Inr (Some ''Running'')
      | Inr False \<Rightarrow> n = 12 \<and> (\<exists>s. get_instance_status w 12 = Inr s \<and> s \<noteq> Some ''Running'')
      | Inl e \<Rightarrow> 1 \<le> n \<and> get_instance_status w n = Inl e"
  proof (cases r)
    case (Inl e)
    with last show ?thesis by (cases n) auto
  next
    case (Inr b)
    show ?thesis
    proof (cases b)
      case True
      with Inr last show ?thesis by (cases n) auto
    next
      case False
      with Inr last le have n12: "n = 12" by simp
      from False Inr last
      have all: "\<forall>j<n. \<exists>s. get_instance_status w (1 + j) = Inr s \<and> s \<noteq> Some ''Running''"
        by simp
      have "(11::nat) < n" using n12 by simp
      with all have "\<exists>s. get_instance_status w (1 + 11) = Inr s \<and> s \<noteq> Some ''Running''"
        by blast
      then have "\<exists>s. get_instance_status w 12 = Inr s \<and> s \<noteq> Some ''Running''"
        by simp
      with Inr False n12 show ?thesis by simp
    qed
  qed
  show ?thesis
    using res tr le earlier final
    by (intro exI[of _ n]) (simp add: START_POLL_INTERVAL_def)
qed

theorem wait_started_polls_witness:
  "wait_started (example_world 100 (\<lambda>k. if k < 3 then ''Stopped'' else ''Running'') 1762000000)
       ''i-1'' 0 1
     = (Inr True, [Sleep 10, DescribeInstances ''i-1'', Sleep 10, DescribeInstances ''i-1'',
                   Sleep 10, DescribeInstances ''i-1'']) \<and>
   (\<exists>n\<le>12.
     snd (wait_started (example_world 100 (\<lambda>k. if k < 3 then ''Stopped'' else ''Running'') 1762000000)
            ''i-1'' 0 1)
       = concat (replicate n [Sleep START_POLL_INTERVAL, DescribeInstances ''i-1'']) \<and> 1 \<le> n)"
  using wait_started_polls [of "example_world 100 (\<lambda>k. if k < 3 then ''Stopped'' else ''Running'') 1762000000" "''i-1''"]
  by (auto simp add: wait_started.simps eval_defs)

subsection \<open>The comparison with the quota\<close>

text \<open>
  Claim C1: in a cycle that got the traffic and found the instance, the comparison of
  line 139 decides alone which branch runs. When the traffic is strictly below the
  quota the cycle is the safe branch (lines 140 to 200), it sends no stop request and
  no overlimit alert. When the traffic is greater than or equal to the quota (equal
  included) the cycle is the overlimit branch (lines 202 to 219), it sends no start
  request and, if the instance is Running, it sends the stop request. On the numbers of
  the model one of the two comparisons holds and never both.
\<close>

theorem quota_partition:
  assumes "traffic_resp w = Inr d" and "get_instance_status w 0 = Inr (Some status)"
  shows "(curr_gb d < limit u \<longrightarrow>
            check_and_act u tg st w =
              (case safe_branch u tg st w status (curr_gb d) of (out, st', tr) \<Rightarrow>
                 (out, st', ListCdtInternetTraffic # DescribeInstances (instance_id u) # tr)) \<and>
            StopInstance (instance_id u) \<notin> set (snd (snd (check_and_act u tg st w))) \<and>
            filter is_overlimit_post (snd (snd (check_and_act u tg st w))) = []) \<and>
         (limit u \<le> curr_gb d \<longrightarrow>
            check_and_act u tg st w =
              (case overlimit_branch u tg st w status (curr_gb d) of (out, st', tr) \<Rightarrow>
                 (out, st', ListCdtInternetTraffic # DescribeInstances (instance_id u) # tr)) \<and>
            StartInstance (instance_id u) \<notin> set (snd (snd (check_and_act u tg st w))) \<and>
            (status = ''Running'' \<longrightarrow>
               StopInstance (instance_id u) \<in> set (snd (snd (check_and_act u tg st w)))))"
proof -
  obtain out st' tr where res: "check_and_act u tg st w = (out, st', tr)"
    by (cases "check_and_act u tg st w") auto
  have safe: "StopInstance (instance_id u) \<notin> set tr \<and> filter is_overlimit_post tr = []"
    if "curr_gb d < limit u"
    using res
  proof (cases rule: check_and_act_cases)
    case (gate d' tr0)
    with notify_once_trace [OF gate(6)] show ?thesis by auto
  next
    case (poll_error d' e polls)
    with wait_started_no_post [OF poll_error(6)] show ?thesis by auto
  next
    case (started d' polls tr0)
    with wait_started_no_post [OF started(6)] notify_once_trace [OF started(8)]
    show ?thesis by auto
  next
    case (timeout d' polls tr0)
    with wait_started_no_post [OF timeout(6)] notify_once_trace [OF timeout(8)]
    show ?thesis by auto
  qed (use that assms in auto)
  have over: "StartInstance (instance_id u) \<notin> set tr \<and>
      (status = ''Running'' \<longrightarrow> StopInstance (instance_id u) \<in> set tr)"
    if "limit u \<le> curr_gb d"
    using res
  proof (cases rule: check_and_act_cases)
    case (stopped d' tr0)
    with notify_once_trace [OF stopped(6)] show ?thesis by auto
  next
    case (remains d' status' tr0)
    with notify_once_trace [OF remains(6)] assms show ?thesis by auto
  qed (use that assms in auto)
  have safe': "StopInstance (instance_id u) \<notin> set (snd (snd (check_and_act u tg st w))) \<and>
      filter is_overlimit_post (snd (snd (check_and_act u tg st w))) = []"
    if "curr_gb d < limit u"
    using safe [OF that] res by simp
  have over': "StartInstance (instance_id u) \<notin> set (snd (snd (check_and_act u tg st w))) \<and>
      (status = ''Running'' \<longrightarrow>
         StopInstance (instance_id u) \<in> set (snd (snd (check_and_act u tg st w))))"
    if "limit u \<le> curr_gb d"
    using over [OF that] res by simp
  have eq_safe: "check_and_act u tg st w =
      (case safe_branch u tg st w status (curr_gb d) of (out, st', tr) \<Rightarrow>
         (out, st', ListCdtInternetTraffic # DescribeInstances (instance_id u) # tr))"
    if "curr_gb d < limit u"
    using that by (simp add: check_and_act_eq [OF assms])
  have eq_over: "check_and_act u tg st w =
      (case overlimit_branch u tg st w status (curr_gb d) of (out, st', tr) \<Rightarrow>
         (out, st', ListCdtInternetTraffic # DescribeInstances (instance_id u) # tr))"
    if "limit u \<le> curr_gb d"
    using that by (simp add: check_and_act_eq [OF assms])
  show ?thesis
    using safe' over' eq_safe eq_over by blast
qed

theorem quota_partition_witness:
  "traffic_resp (example_world 180 (\<lambda>k. ''Running'') 1762000000) = Inr (Some [Some (180 * 1024 ^ 3)]) \<and>
   get_instance_status (example_world 180 (\<lambda>k. ''Running'') 1762000000) 0 = Inr (Some ''Running'') \<and>
   limit u1 \<le> curr_gb (Some [Some (180 * 1024 ^ 3)]) \<and>
   StopInstance ''i-1'' \<in> set (snd (snd (check_and_act u1 tg1 Map.empty
                                  (example_world 180 (\<lambda>k. ''Running'') 1762000000)))) \<and>
   traffic_resp (example_world 179 (\<lambda>k. ''Running'') 1762000000) = Inr (Some [Some (179 * 1024 ^ 3)]) \<and>
   get_instance_status (example_world 179 (\<lambda>k. ''Running'') 1762000000) 0 = Inr (Some ''Running'') \<and>
   curr_gb (Some [Some (179 * 1024 ^ 3)]) < limit u1 \<and>
   StopInstance ''i-1'' \<notin> set (snd (snd (check_and_act u1 tg1 Map.empty
                                  (example_world 179 (\<lambda>k. ''Running'') 1762000000))))"
  using quota_partition [of "example_world 180 (\<lambda>k. ''Running'') 1762000000"
          "Some [Some (180 * 1024 ^ 3)]" "''Running''" u1 tg1 Map.empty]
        quota_partition [of "example_world 179 (\<lambda>k. ''Running'') 1762000000"
          "Some [Some (179 * 1024 ^ 3)]" "''Running''" u1 tg1 Map.empty]
  by (simp add: eval_defs)

text \<open>
  Claim C10: a user whose record has no \<open>traffic_limit\<close> is treated exactly as the same
  user with \<open>traffic_limit\<close> 180: the quota is 180, the whole cycle is the same, and a
  cycle that got the traffic and found the instance runs the safe branch when the
  traffic is strictly below 180 GB and the overlimit branch when it is 180 GB or more.
\<close>

theorem default_limit:
  assumes "traffic_limit u = None"
  shows "limit u = 180 \<and>
    check_and_act u tg st w = check_and_act (u\<lparr>traffic_limit := Some 180\<rparr>) tg st w \<and>
    (traffic_resp w = Inr d \<and> get_instance_status w 0 = Inr (Some status) \<longrightarrow>
       check_and_act u tg st w =
         (case (if curr_gb d < 180 then safe_branch u tg st w status (curr_gb d)
                else overlimit_branch u tg st w status (curr_gb d)) of
            (out, st', tr) \<Rightarrow>
              (out, st', ListCdtInternetTraffic # DescribeInstances (instance_id u) # tr)))"
proof -
  have lim: "limit u = 180" using assms by (simp add: limit_def)
  have "u = u\<lparr>traffic_limit := None\<rparr>" using assms by simp
  then have "check_and_act u tg st w = check_and_act (u\<lparr>traffic_limit := None\<rparr>) tg st w"
    by simp
  also have "\<dots> = check_and_act (u\<lparr>traffic_limit := Some 180\<rparr>) tg st w"
    by (auto simp: check_and_act_def limit_def branch_traffic_limit Let_def
          split: sum.splits option.splits)
  finally have same: "check_and_act u tg st w = check_and_act (u\<lparr>traffic_limit := Some 180\<rparr>) tg st w" .
  have "check_and_act u tg st w =
         (case (if curr_gb d < 180 then safe_branch u tg st w status (curr_gb d)
                else overlimit_branch u tg st w status (curr_gb d)) of
            (out, st', tr) \<Rightarrow>
              (out, st', ListCdtInternetTraffic # DescribeInstances (instance_id u) # tr))"
    if "traffic_resp w = Inr d" "get_instance_status w 0 = Inr (Some status)"
    using check_and_act_eq [OF that, of u tg st] lim by simp
  with lim same show ?thesis by blast
qed

theorem default_limit_witness:
  "traffic_limit u1 = None \<and> limit u1 = 180 \<and>
   check_and_act u1 tg1 Map.empty (example_world 180 (\<lambda>k. ''Running'') 1762000000)
     = check_and_act (u1\<lparr>traffic_limit := Some 180\<rparr>) tg1 Map.empty
         (example_world 180 (\<lambda>k. ''Running'') 1762000000) \<and>
   snd (snd (check_and_act u1 tg1 Map.empty (example_world 180 (\<lambda>k. ''Running'') 1762000000)))
     = [ListCdtInternetTraffic, DescribeInstances ''i-1'', StopInstance ''i-1'',
        TgPost (OverlimitStoppedAlert ''vm1'' 180) Red] \<and>
   snd (snd (check_and_act u1 tg1 Map.empty (example_world 179 (\<lambda>k. ''Running'') 1762000000)))
     = [ListCdtInternetTraffic, DescribeInstances ''i-1'']"
proof -
  have n: "traffic_limit u1 = None" by (simp add: u1_def)
  show ?thesis
    using n default_limit [OF n, of tg1 Map.empty "example_world 180 (\<lambda>k. ''Running'') 1762000000"]
    by (simp add: eval_defs)
qed

subsection \<open>The start-failure counter\<close>

text \<open>
  Claim C2: the start-failure counter of a target reads 0 when the state holds none for
  it. A cycle that sent the start request and whose polling loop ended in the timeout
  (it reported \<open>started = False\<close>) leaves the counter exactly 1 higher than it found
  it. A cycle that sent the start request and whose loop confirmed Running, and a cycle
  that found the instance Running with the traffic below the quota, leave it 0. A cycle
  whose traffic is at or above the quota, and a cycle that sent the stop request, leave
  the counter of every target as it was.
\<close>

theorem start_failures_counter:
  assumes "check_and_act u tg st w = (out, st', tr)"
  shows "(stored st i ''start_failures'' = None \<longrightarrow> get_start_failures st i = 0) \<and>
    (StartInstance (instance_id u) \<in> set tr \<and> start_resp w = Inr () \<and>
       fst (wait_started w (instance_id u) 0 1) = Inr False \<longrightarrow>
         get_start_failures st' (instance_id u) = get_start_failures st (instance_id u) + 1) \<and>
    (StartInstance (instance_id u) \<in> set tr \<and> start_resp w = Inr () \<and>
       fst (wait_started w (instance_id u) 0 1) = Inr True \<longrightarrow>
         get_start_failures st' (instance_id u) = 0) \<and>
    (finds_running u w \<longrightarrow> get_start_failures st' (instance_id u) = 0) \<and>
    ((\<exists>d. traffic_resp w = Inr d \<and> limit u \<le> curr_gb d) \<longrightarrow>
         get_start_failures st' i = get_start_failures st i) \<and>
    (StopInstance (instance_id u) \<in> set tr \<longrightarrow>
         get_start_failures st' i = get_start_failures st i)"
proof -
  have absent: "get_start_failures st i = 0" if "stored st i ''start_failures'' = None"
    using that by (simp add: get_start_failures_stored)
  have timeout: "get_start_failures st' (instance_id u) = get_start_failures st (instance_id u) + 1"
    if "StartInstance (instance_id u) \<in> set tr" "start_resp w = Inr ()"
       "fst (wait_started w (instance_id u) 0 1) = Inr False"
    using assms
  proof (cases rule: check_and_act_cases)
    case (gate d tr0)
    with notify_once_trace [OF gate(6)] that show ?thesis by auto
  next
    case (timeout d polls tr0)
    from notify_once_stored [OF timeout(8), of "instance_id u" "''start_failures''"]
    show ?thesis
      by (simp add: get_start_failures_stored stored_set_start_failures)
  next
    case (stopped d tr0)
    with notify_once_trace [OF stopped(6)] that show ?thesis by auto
  next
    case (remains d status tr0)
    with notify_once_trace [OF remains(6)] that show ?thesis by auto
  qed (use that in auto)
  have started: "get_start_failures st' (instance_id u) = 0"
    if "StartInstance (instance_id u) \<in> set tr" "start_resp w = Inr ()"
       "fst (wait_started w (instance_id u) 0 1) = Inr True"
    using assms
  proof (cases rule: check_and_act_cases)
    case (gate d tr0)
    with notify_once_trace [OF gate(6)] that show ?thesis by auto
  next
    case (started d polls tr0)
    from notify_once_stored [OF started(8), of "instance_id u" "''start_failures''"]
    show ?thesis
      by (simp add: get_start_failures_stored stored_pop_key stored_reset_start_failures)
  next
    case (stopped d tr0)
    with notify_once_trace [OF stopped(6)] that show ?thesis by auto
  next
    case (remains d status tr0)
    with notify_once_trace [OF remains(6)] that show ?thesis by auto
  qed (use that in auto)
  have running: "get_start_failures st' (instance_id u) = 0" if "finds_running u w"
    using assms
  proof (cases rule: check_and_act_cases)
    case (running d)
    then show ?thesis
      by (simp add: get_start_failures_stored stored_reset_start_failures)
  qed (use that in \<open>auto simp: finds_running_def\<close>)
  have over: "get_start_failures st' i = get_start_failures st i"
    if "\<exists>d. traffic_resp w = Inr d \<and> limit u \<le> curr_gb d"
    using assms
  proof (cases rule: check_and_act_cases)
    case (stopped d tr0)
    from notify_once_stored [OF stopped(6), of i "''start_failures''"]
    show ?thesis by (simp add: get_start_failures_stored)
  next
    case (remains d status tr0)
    from notify_once_stored [OF remains(6), of i "''start_failures''"]
    show ?thesis by (simp add: get_start_failures_stored)
  qed (use that in auto)
  have stop: "get_start_failures st' i = get_start_failures st i"
    if "StopInstance (instance_id u) \<in> set tr"
    using assms
  proof (cases rule: check_and_act_cases)
    case (gate d tr0)
    with notify_once_trace [OF gate(6)] that show ?thesis by auto
  next
    case (poll_error d e polls)
    with wait_started_no_post(3) [OF poll_error(6)] that show ?thesis by auto
  next
    case (started d polls tr0)
    with wait_started_no_post(3) [OF started(6)] notify_once_trace [OF started(8)] that
    show ?thesis by auto
  next
    case (timeout d polls tr0)
    with wait_started_no_post(3) [OF timeout(6)] notify_once_trace [OF timeout(8)] that
    show ?thesis by auto
  next
    case (stopped d tr0)
    from notify_once_stored [OF stopped(6), of i "''start_failures''"]
    show ?thesis by (simp add: get_start_failures_stored)
  next
    case (remains d status tr0)
    from notify_once_stored [OF remains(6), of i "''start_failures''"]
    show ?thesis by (simp add: get_start_failures_stored)
  qed (use that in auto)
  show ?thesis
    using absent timeout started running over stop by blast
qed

theorem start_failures_counter_witness:
  "stored Map.empty ''i-1'' ''start_failures'' = None \<and>
   get_start_failures Map.empty ''i-1'' = 0 \<and>
   StartInstance ''i-1'' \<in> set (snd (snd (check_and_act u1 tg1 Map.empty
       (example_world 100 (\<lambda>k. ''Stopped'') 1762000000)))) \<and>
   start_resp (example_world 100 (\<lambda>k. ''Stopped'') 1762000000) = Inr () \<and>
   fst (wait_started (example_world 100 (\<lambda>k. ''Stopped'') 1762000000) ''i-1'' 0 1) = Inr False \<and>
   get_start_failures (fst (snd (check_and_act u1 tg1 Map.empty
       (example_world 100 (\<lambda>k. ''Stopped'') 1762000000)))) ''i-1'' = 1 \<and>
   finds_running u1 (example_world 100 (\<lambda>k. ''Running'') 1762000000) \<and>
   get_start_failures (fst (snd (check_and_act u1 tg1 st3
       (example_world 100 (\<lambda>k. ''Running'') 1762000000)))) ''i-1'' = 0 \<and>
   StopInstance ''i-1'' \<in> set (snd (snd (check_and_act u1 tg1 st3
       (example_world 200 (\<lambda>k. ''Running'') 1762000000)))) \<and>
   get_start_failures (fst (snd (check_and_act u1 tg1 st3
       (example_world 200 (\<lambda>k. ''Running'') 1762000000)))) ''i-1'' = 3"
proof -
  let ?wT = "example_world 100 (\<lambda>k. ''Stopped'') 1762000000"
  let ?wR = "example_world 100 (\<lambda>k. ''Running'') 1762000000"
  let ?wO = "example_world 200 (\<lambda>k. ''Running'') 1762000000"
  let ?cT = "check_and_act u1 tg1 Map.empty ?wT"
  let ?cR = "check_and_act u1 tg1 st3 ?wR"
  let ?cO = "check_and_act u1 tg1 st3 ?wO"
  have id: "instance_id u1 = ''i-1''" by (simp add: u1_def)
  have absent: "stored Map.empty ''i-1'' ''start_failures'' = None"
    by (simp add: stored_def)
  have three: "get_start_failures st3 ''i-1'' = 3"
    by (simp add: eval_defs)
  have evT: "StartInstance ''i-1'' \<in> set (snd (snd ?cT))" "start_resp ?wT = Inr ()"
    "fst (wait_started ?wT ''i-1'' 0 1) = Inr False"
    by (simp_all add: eval_defs wait_started.simps)
  have evR: "finds_running u1 ?wR"
    by (simp add: finds_running_def eval_defs)
  have evO: "StopInstance ''i-1'' \<in> set (snd (snd ?cO))"
    by (simp add: eval_defs)
  note T = start_failures_counter [of u1 tg1 Map.empty ?wT "fst ?cT" "fst (snd ?cT)" "snd (snd ?cT)" "''i-1''",
      unfolded id, simplified prod.collapse, OF refl]
  note R = start_failures_counter [of u1 tg1 st3 ?wR "fst ?cR" "fst (snd ?cR)" "snd (snd ?cR)" "''i-1''",
      unfolded id, simplified prod.collapse, OF refl]
  note O = start_failures_counter [of u1 tg1 st3 ?wO "fst ?cO" "fst (snd ?cO)" "snd (snd ?cO)" "''i-1''",
      unfolded id, simplified prod.collapse, OF refl]
  from T absent have zero: "get_start_failures Map.empty ''i-1'' = 0" by blast
  from T evT zero have one: "get_start_failures (fst (snd ?cT)) ''i-1'' = 1" by simp
  from R evR have reset: "get_start_failures (fst (snd ?cR)) ''i-1'' = 0" by blast
  from O evO three have kept: "get_start_failures (fst (snd ?cO)) ''i-1'' = 3" by simp
  show ?thesis
    using absent zero evT one evR reset evO kept by blast
qed

subsection \<open>What a confirmed start writes\<close>

text \<open>
  Claim C8, as the specification states it: a cycle that confirms the start removes
  \<open>no_resource\<close>, leaves \<open>start_failed\<close> and every other event timestamp of the target
  unchanged. The same cycle marks \<open>resumed\<close> when its cooldown has elapsed (line 180):
  from the empty state, the cycle that starts \<open>i-1\<close> and sees Running at the first poll
  stores the timestamp \<open>resumed\<close>, which was absent.
\<close>

theorem confirmed_start_frame_counterexample:
  "StartInstance ''i-1'' \<in> set (snd (snd (check_and_act u1 tg1 Map.empty
       (example_world 100 (\<lambda>k. if k = 0 then ''Stopped'' else ''Running'') 1762000000)))) \<and>
   fst (wait_started (example_world 100 (\<lambda>k. if k = 0 then ''Stopped'' else ''Running'') 1762000000)
          ''i-1'' 0 1) = Inr True \<and>
   stored Map.empty ''i-1'' ''resumed'' = None \<and>
   stored (fst (snd (check_and_act u1 tg1 Map.empty
       (example_world 100 (\<lambda>k. if k = 0 then ''Stopped'' else ''Running'') 1762000000))))
     ''i-1'' ''resumed'' = Some 1762000001"
  by (simp add: eval_defs wait_started.simps)

text \<open>
  Claim C8, amended: a cycle that sent the start request and confirmed Running removes
  the stored \<open>no_resource\<close> timestamp of the target and leaves its \<open>start_failed\<close>
  timestamp unchanged; it sets the \<open>resumed\<close> timestamp to the clock reading of
  \<open>mark_notified\<close> when the default cooldown of \<open>resumed\<close> has elapsed and leaves it
  unchanged otherwise; it sets the counter \<open>start_failures\<close> to 0; it leaves every
  other key of the target, and the entry of every other target, unchanged.
\<close>

theorem confirmed_start_frame:
  assumes "check_and_act u tg st w = (out, st', tr)"
    and "StartInstance (instance_id u) \<in> set tr"
    and "start_resp w = Inr ()"
    and "fst (wait_started w (instance_id u) 0 1) = Inr True"
  shows "stored st' (instance_id u) ''no_resource'' = None \<and>
    stored st' (instance_id u) ''start_failed'' = stored st (instance_id u) ''start_failed'' \<and>
    stored st' (instance_id u) ''resumed'' =
      (if can_notify st (instance_id u) ''resumed'' None (clock w 0) then Some (clock w 1)
       else stored st (instance_id u) ''resumed'') \<and>
    stored st' (instance_id u) ''start_failures'' = Some 0 \<and>
    (\<forall>k. k \<notin> {''no_resource'', ''resumed'', ''start_failures''} \<longrightarrow>
       stored st' (instance_id u) k = stored st (instance_id u) k) \<and>
    (\<forall>j. j \<noteq> instance_id u \<longrightarrow> st' j = st j)"
  using assms(1)
proof (cases rule: check_and_act_cases)
  case (gate d tr0)
  with notify_once_trace [OF gate(6)] assms show ?thesis by auto
next
  case (started d polls tr0)
  let ?i = "instance_id u"
  let ?s2 = "pop_key (reset_start_failures st ?i) ?i ''no_resource''"
  have cn: "can_notify ?s2 ?i ''resumed'' None (clock w 0)
      = can_notify st ?i ''resumed'' None (clock w 0)"
    by (rule can_notify_cong) (simp add: stored_pop_key stored_reset_start_failures)
  have st: "stored st' ?i k =
      (if can_notify st ?i ''resumed'' None (clock w 0) \<and> k = ''resumed'' then Some (clock w 1)
       else if k = ''no_resource'' then None
       else if k = ''start_failures'' then Some 0
       else stored st ?i k)" for k
    using notify_once_stored [OF started(8), of ?i k]
    by (simp add: cn stored_pop_key stored_reset_start_failures)
  have other: "st' j = st j" if "j \<noteq> ?i" for j
    using notify_once_other [OF started(8) that] that
    by (simp add: other_pop_key other_reset_start_failures)
  show ?thesis
    using other by (simp add: st)
next
  case (stopped d tr0)
  with notify_once_trace [OF stopped(6)] assms show ?thesis by auto
next
  case (remains d status tr0)
  with notify_once_trace [OF remains(6)] assms show ?thesis by auto
qed (use assms in auto)

theorem confirmed_start_frame_witness:
  "StartInstance ''i-1'' \<in> set (snd (snd (check_and_act u1 tg1 st2
       (example_world 100 (\<lambda>k. if k = 0 then ''Stopped'' else ''Running'') 1762000000)))) \<and>
   start_resp (example_world 100 (\<lambda>k. if k = 0 then ''Stopped'' else ''Running'') 1762000000) = Inr () \<and>
   fst (wait_started (example_world 100 (\<lambda>k. if k = 0 then ''Stopped'' else ''Running'') 1762000000)
          ''i-1'' 0 1) = Inr True \<and>
   stored st2 ''i-1'' ''no_resource'' = Some 1761990000 \<and>
   stored (fst (snd (check_and_act u1 tg1 st2
       (example_world 100 (\<lambda>k. if k = 0 then ''Stopped'' else ''Running'') 1762000000))))
     ''i-1'' ''no_resource'' = None \<and>
   stored (fst (snd (check_and_act u1 tg1 st2
       (example_world 100 (\<lambda>k. if k = 0 then ''Stopped'' else ''Running'') 1762000000))))
     ''i-1'' ''start_failed'' = Some 1761999000 \<and>
   stored (fst (snd (check_and_act u1 tg1 st2
       (example_world 100 (\<lambda>k. if k = 0 then ''Stopped'' else ''Running'') 1762000000))))
     ''i-1'' ''resumed'' = Some 1762000001 \<and>
   fst (snd (check_and_act u1 tg1 st2
       (example_world 100 (\<lambda>k. if k = 0 then ''Stopped'' else ''Running'') 1762000000))) ''i-2''
     = st2 ''i-2''"
proof -
  let ?w = "example_world 100 (\<lambda>k. if k = 0 then ''Stopped'' else ''Running'') 1762000000"
  let ?c = "check_and_act u1 tg1 st2 ?w"
  have id: "instance_id u1 = ''i-1''" by (simp add: u1_def)
  have ev: "StartInstance ''i-1'' \<in> set (snd (snd ?c))" "start_resp ?w = Inr ()"
    "fst (wait_started ?w ''i-1'' 0 1) = Inr True"
    by (simp_all add: eval_defs wait_started.simps)
  have before: "stored st2 ''i-1'' ''no_resource'' = Some 1761990000"
    "stored st2 ''i-1'' ''start_failed'' = Some 1761999000"
    "can_notify st2 ''i-1'' ''resumed'' None (clock ?w 0)" "clock ?w 1 = 1762000001"
    by (simp_all add: eval_defs)
  note F = confirmed_start_frame [of u1 tg1 st2 ?w "fst ?c" "fst (snd ?c)" "snd (snd ?c)",
      unfolded id, simplified prod.collapse, OF refl ev]
  from F before have "stored (fst (snd ?c)) ''i-1'' ''no_resource'' = None"
    "stored (fst (snd ?c)) ''i-1'' ''start_failed'' = Some 1761999000"
    "stored (fst (snd ?c)) ''i-1'' ''resumed'' = Some 1762000001"
    "fst (snd ?c) ''i-2'' = st2 ''i-2''"
    by simp_all
  with ev before show ?thesis by blast
qed

subsection \<open>The resource-exhaustion gate\<close>

text \<open>
  Claim C3: let the start-failure counter of a target be at least
  \<open>MAX_START_FAILURES\<close> = 3. The counter is written at three places only: lines 173 and
  184 follow the start request of line 157, which the gate of line 143 keeps out of
  reach, and line 196 is reached by a cycle that finds the instance Running with the
  traffic below the quota; that cycle is the confirmed Running which resets the
  counter. So, in every sequence of cycles (of this and of other targets, in any
  worlds) in which no cycle of the target finds it Running below the quota, no cycle
  sends a start request for the target and the counter ends as it began. In
  particular the cycle of the gate itself (traffic below the quota, status Stopped) is
  the two queries followed by the \<open>no_resource\<close> notification of lines 146 to 151,
  which writes the timestamp \<open>no_resource\<close> at most and never the counter.
\<close>

theorem exhaustion_gate:
  assumes "MAX_START_FAILURES \<le> get_start_failures st i"
    and "\<forall>(u, w) \<in> set cs. instance_id u = i \<longrightarrow> \<not> finds_running u w"
  shows "StartInstance i \<notin> set (concat (map snd (snd (run_cycles tg st cs)))) \<and>
    get_start_failures (fst (run_cycles tg st cs)) i = get_start_failures st i \<and>
    (\<forall>u w d. instance_id u = i \<and> traffic_resp w = Inr d \<and> curr_gb d < limit u \<and>
        get_instance_status w 0 = Inr (Some ''Stopped'') \<longrightarrow>
          check_and_act u tg st w =
            (case notify_once tg st w i ''no_resource'' None
                    (NoResourceAlert (name u) (curr_gb d) (get_start_failures st i)) Red of
               (st', tr) \<Rightarrow>
                 (Done, st', ListCdtInternetTraffic # DescribeInstances i # tr)))"
proof -
  from assms(1) have three: "3 \<le> get_start_failures st i"
    by (simp add: MAX_START_FAILURES_def)
  have path: "check_and_act u tg st w =
      (case notify_once tg st w i ''no_resource'' None
              (NoResourceAlert (name u) (curr_gb d) (get_start_failures st i)) Red of
         (st', tr) \<Rightarrow> (Done, st', ListCdtInternetTraffic # DescribeInstances i # tr))"
    if "instance_id u = i" "traffic_resp w = Inr d" "curr_gb d < limit u"
      "get_instance_status w 0 = Inr (Some ''Stopped'')" for u w d
    using that assms(1)
    by (simp add: check_and_act_eq [OF that(2,4)] safe_branch_def Let_def split: prod.splits)
  from gate_cycles [OF three assms(2)] path show ?thesis by blast
qed

theorem exhaustion_gate_witness:
  "MAX_START_FAILURES \<le> get_start_failures st3 ''i-1'' \<and>
   \<not> finds_running u1 (example_world 100 (\<lambda>k. ''Stopped'') 1762000000) \<and>
   StartInstance ''i-1'' \<notin> set (concat (map snd (snd (run_cycles tg1 st3
      [(u1, example_world 100 (\<lambda>k. ''Stopped'') 1762000000),
       (u2, example_world 10 (\<lambda>k. ''Running'') 1762000100),
       (u1, example_world 100 (\<lambda>k. ''Stopped'') 1762000300)])))) \<and>
   get_start_failures (fst (run_cycles tg1 st3
      [(u1, example_world 100 (\<lambda>k. ''Stopped'') 1762000000),
       (u2, example_world 10 (\<lambda>k. ''Running'') 1762000100),
       (u1, example_world 100 (\<lambda>k. ''Stopped'') 1762000300)])) ''i-1'' = 3 \<and>
   snd (snd (check_and_act u1 tg1 st3 (example_world 100 (\<lambda>k. ''Stopped'') 1762000000)))
     = [ListCdtInternetTraffic, DescribeInstances ''i-1'',
        TgPost (NoResourceAlert ''vm1'' 100 3) Red]"
proof -
  let ?w = "example_world 100 (\<lambda>k. ''Stopped'') 1762000000"
  let ?cs = "[(u1, ?w), (u2, example_world 10 (\<lambda>k. ''Running'') 1762000100),
              (u1, example_world 100 (\<lambda>k. ''Stopped'') 1762000300)]"
  have three: "get_start_failures st3 ''i-1'' = 3" by (simp add: eval_defs)
  then have closed: "MAX_START_FAILURES \<le> get_start_failures st3 ''i-1''"
    by (simp add: MAX_START_FAILURES_def)
  have nf: "\<not> finds_running u1 ?w" by (simp add: finds_running_def eval_defs)
  have none: "\<forall>(u, w) \<in> set ?cs. instance_id u = ''i-1'' \<longrightarrow> \<not> finds_running u w"
    by (simp add: finds_running_def eval_defs)
  have obs: "instance_id u1 = ''i-1''" "traffic_resp ?w = Inr (Some [Some (100 * 1024 ^ 3)])"
    "curr_gb (Some [Some (100 * 1024 ^ 3)]) < limit u1"
    "get_instance_status ?w 0 = Inr (Some ''Stopped'')"
    by (simp_all add: eval_defs)
  note G = exhaustion_gate [OF closed none, of tg1]
  from G have seq: "StartInstance ''i-1'' \<notin> set (concat (map snd (snd (run_cycles tg1 st3 ?cs))))"
    "get_start_failures (fst (run_cycles tg1 st3 ?cs)) ''i-1'' = get_start_failures st3 ''i-1''"
    by simp_all
  from G obs have "check_and_act u1 tg1 st3 ?w =
      (case notify_once tg1 st3 ?w ''i-1'' ''no_resource'' None
              (NoResourceAlert (name u1) (curr_gb (Some [Some (100 * 1024 ^ 3)]))
                 (get_start_failures st3 ''i-1'')) Red of
         (st', tr) \<Rightarrow> (Done, st', ListCdtInternetTraffic # DescribeInstances ''i-1'' # tr))"
    by blast
  then have "snd (snd (check_and_act u1 tg1 st3 ?w))
     = [ListCdtInternetTraffic, DescribeInstances ''i-1'',
        TgPost (NoResourceAlert ''vm1'' 100 3) Red]"
    by (simp add: eval_defs)
  with closed nf seq three show ?thesis by simp
qed

subsection \<open>One overlimit notification per day\<close>

text \<open>
  Claim C6: both cases of the overlimit branch (the instance was Running and is
  stopped; the instance was not Running) end in the same notification step on the same
  event key \<open>overlimit\<close> with the cooldown \<open>OVERLIMIT_COOLDOWN\<close> = 86400 seconds. So
  in every sequence of cycles in which the clock readings of the target's cycles stay
  within one window of 86400 seconds (no reading of \<open>mark_notified\<close> before \<open>T\<close>, every
  reading of \<open>can_notify\<close> before \<open>T + 86400\<close>), at most one overlimit alert (of either
  kind) is sent for the target, from any starting state.
\<close>

theorem overlimit_deduplicated:
  assumes "\<forall>(u, w) \<in> set cs. instance_id u = i \<longrightarrow>
             T \<le> clock w 1 \<and> clock w 0 < T + OVERLIMIT_COOLDOWN"
  shows "length (filter is_overlimit_post (effects_of i (snd (run_cycles tg st cs)))) \<le> 1 \<and>
    OVERLIMIT_COOLDOWN = 86400 \<and>
    (\<forall>u w d status. instance_id u = i \<and> traffic_resp w = Inr d \<and> limit u \<le> curr_gb d \<and>
        get_instance_status w 0 = Inr (Some status) \<and> stop_resp w = Inr () \<longrightarrow>
          fst (snd (check_and_act u tg st w)) =
            fst (notify_once tg st w i ''overlimit'' (Some OVERLIMIT_COOLDOWN)
                   (if status = ''Running'' then OverlimitStoppedAlert (name u) (curr_gb d)
                    else OverlimitRemainsAlert (name u) (curr_gb d)) Red))"
proof -
  have shared: "fst (snd (check_and_act u tg st w)) =
      fst (notify_once tg st w i ''overlimit'' (Some OVERLIMIT_COOLDOWN)
             (if status = ''Running'' then OverlimitStoppedAlert (name u) (curr_gb d)
              else OverlimitRemainsAlert (name u) (curr_gb d)) Red)"
    if "instance_id u = i" "traffic_resp w = Inr d" "limit u \<le> curr_gb d"
      "get_instance_status w 0 = Inr (Some status)" "stop_resp w = Inr ()" for u w d status
    using that
    by (simp add: check_and_act_eq [OF that(2,4)] overlimit_branch_def Let_def split: prod.splits)
  from overlimit_once [OF assms] shared show ?thesis
    by (simp add: OVERLIMIT_COOLDOWN_def)
qed

theorem overlimit_deduplicated_witness:
  "clock (example_world 200 (\<lambda>k. ''Running'') 1762000000) 0 < 1762000000 + OVERLIMIT_COOLDOWN \<and>
   1762000000 \<le> clock (example_world 200 (\<lambda>k. ''Stopped'') 1762000300) 1 \<and>
   length (filter is_overlimit_post (effects_of ''i-1'' (snd (run_cycles tg1 Map.empty
      [(u1, example_world 200 (\<lambda>k. ''Running'') 1762000000),
       (u1, example_world 200 (\<lambda>k. ''Stopped'') 1762000300),
       (u1, example_world 190 (\<lambda>k. ''Running'') 1762080000)])))) \<le> 1 \<and>
   filter is_overlimit_post (effects_of ''i-1'' (snd (run_cycles tg1 Map.empty
      [(u1, example_world 200 (\<lambda>k. ''Running'') 1762000000),
       (u1, example_world 200 (\<lambda>k. ''Stopped'') 1762000300),
       (u1, example_world 190 (\<lambda>k. ''Running'') 1762080000)])))
     = [TgPost (OverlimitStoppedAlert ''vm1'' 200) Red]"
proof -
  let ?cs = "[(u1, example_world 200 (\<lambda>k. ''Running'') 1762000000),
       (u1, example_world 200 (\<lambda>k. ''Stopped'') 1762000300),
       (u1, example_world 190 (\<lambda>k. ''Running'') 1762080000)]"
  have window: "\<forall>(u, w) \<in> set ?cs. instance_id u = ''i-1'' \<longrightarrow>
      1762000000 \<le> clock w 1 \<and> clock w 0 < 1762000000 + OVERLIMIT_COOLDOWN"
    by (simp add: eval_defs)
  have ev: "clock (example_world 200 (\<lambda>k. ''Running'') 1762000000) 0 < 1762000000 + OVERLIMIT_COOLDOWN"
    "1762000000 \<le> clock (example_world 200 (\<lambda>k. ''Stopped'') 1762000300) 1"
    by (simp_all add: eval_defs)
  have posts: "filter is_overlimit_post (effects_of ''i-1'' (snd (run_cycles tg1 Map.empty ?cs)))
     = [TgPost (OverlimitStoppedAlert ''vm1'' 200) Red]"
    by (simp add: effects_of_def eval_defs)
  from overlimit_deduplicated [OF window, of tg1 Map.empty]
  have "length (filter is_overlimit_post (effects_of ''i-1'' (snd (run_cycles tg1 Map.empty ?cs)))) \<le> 1"
    by simp
  with ev posts show ?thesis by simp
qed

subsection \<open>Errors of the cloud API\<close>




subsection \<open>The exit status\<close>




end
